theory Spec2Isabelle
  imports Complex_Main "HOL-Library.Word" "HOL-Library.Log_Nat"
    "HOL-Library.Char_ord" "HOL-Library.List_Lexorder"
begin

section \<open>Double-precision floats\<close>

text \<open>
  A Python \<open>float\<close> is an IEEE 754 binary64 value: a finite number (kept here as the
  rational it denotes), an infinity or NaN. The two zeros are identified (so \<open>-0.0\<close>
  is \<open>0.0\<close>). Results of arithmetic are rounded to the nearest representable value,
  ties to even; a rational \<open>q\<close> is a double when rounding leaves it unchanged.
\<close>

datatype fl = Fin rat | PInf | NInf | NaN

definition pow2 :: "int \<Rightarrow> rat" where
  "pow2 e = (if 0 \<le> e then 2 ^ nat e else 1 / 2 ^ nat (- e))"

definition round_half_even :: "rat \<Rightarrow> int" where
  "round_half_even x =
     (let f = \<lfloor>x\<rfloor>; d = x - of_int f
      in if d < 1 / 2 then f else if 1 / 2 < d then f + 1 else if even f then f else f + 1)"

definition ilog2 :: "rat \<Rightarrow> int" where
  \<comment> \<open>for \<open>0 < x\<close>: the exponent \<open>e\<close> with \<open>2 ^ e \<le> x < 2 ^ (e + 1)\<close>\<close>
  "ilog2 x =
     (let (p, q) = quotient_of x; e = bitlen p - bitlen q
      in if pow2 e \<le> x then e else e - 1)"

definition round_double :: "rat \<Rightarrow> fl" where
  \<comment> \<open>53 significant bits, least exponent \<open>-1074\<close>, overflow at \<open>2 ^ 1024\<close>\<close>
  "round_double x =
     (if x = 0 then Fin 0
      else let e = max (ilog2 \<bar>x\<bar> - 52) (- 1074);
               y = of_int (round_half_even (x / pow2 e)) * pow2 e
           in if pow2 1024 \<le> \<bar>y\<bar> then (if 0 < x then PInf else NInf) else Fin y)"

fun fneg :: "fl \<Rightarrow> fl" where
  "fneg (Fin x) = Fin (- x)"
| "fneg PInf = NInf"
| "fneg NInf = PInf"
| "fneg NaN = NaN"

fun fsub :: "fl \<Rightarrow> fl \<Rightarrow> fl" where
  "fsub NaN _ = NaN"
| "fsub _ NaN = NaN"
| "fsub (Fin x) (Fin y) = round_double (x - y)"
| "fsub (Fin _) PInf = NInf"
| "fsub (Fin _) NInf = PInf"
| "fsub PInf PInf = NaN"
| "fsub PInf _ = PInf"
| "fsub NInf NInf = NaN"
| "fsub NInf _ = NInf"

fun fadd :: "fl \<Rightarrow> fl \<Rightarrow> fl" where
  "fadd x y = fsub x (fneg y)"

fun fabs :: "fl \<Rightarrow> fl" where
  "fabs (Fin x) = Fin \<bar>x\<bar>"
| "fabs PInf = PInf"
| "fabs NInf = PInf"
| "fabs NaN = NaN"

fun fle :: "fl \<Rightarrow> fl \<Rightarrow> bool" where
  "fle NaN _ = False"
| "fle _ NaN = False"
| "fle NInf _ = True"
| "fle _ PInf = True"
| "fle (Fin x) (Fin y) = (x \<le> y)"
| "fle (Fin _) NInf = False"
| "fle PInf _ = False"


definition isfinite :: "fl \<Rightarrow> bool" where
  "isfinite x = (case x of Fin _ \<Rightarrow> True | _ \<Rightarrow> False)"

section \<open>Cell values\<close>

text \<open>
  What \<open>df.at[r, c]\<close> can hand to \<open>compare_values\<close>: \<open>None\<close>, a Python \<open>bool\<close>,
  \<open>int\<close>, \<open>float\<close> or \<open>str\<close>, or a numpy scalar (\<open>np.bool_\<close>, \<open>np.int64\<close>,
  \<open>np.float64\<close>) when the column has a numpy dtype. A string is a list of code points
  below 256.
\<close>

datatype cell =
    PyNone
  | PyBool bool
  | PyInt int
  | PyFloat fl
  | PyStr string
  | NpBool bool
  | NpInt "64 word"
  | NpFloat fl

datatype exn = OverflowError | ValueError | KeyError

text \<open>
  \<open>float(x)\<close>, which \<open>compare_values\<close> calls only on values that pass
  \<open>is_number\<close>: an \<open>int\<close> too large for a double raises \<open>OverflowError\<close>. (A
  string or \<open>None\<close> never reaches it; the last equation is there to make the function
  total.)
\<close>

definition float_of_int :: "int \<Rightarrow> exn + fl" where
  "float_of_int n =
     (case round_double (of_int n) of Fin y \<Rightarrow> Inr (Fin y) | _ \<Rightarrow> Inl OverflowError)"

fun py_float :: "cell \<Rightarrow> exn + fl" where
  "py_float (PyBool b) = Inr (Fin (if b then 1 else 0))"
| "py_float (PyInt n) = float_of_int n"
| "py_float (PyFloat x) = Inr x"
| "py_float (NpBool b) = Inr (Fin (if b then 1 else 0))"
| "py_float (NpInt w) = float_of_int (sint w)"
| "py_float (NpFloat x) = Inr x"
| "py_float _ = Inl ValueError"


text \<open>\<open>pd.isna\<close>: true of \<open>None\<close> and of a NaN float.\<close>

fun pd_isna :: "cell \<Rightarrow> bool" where
  "pd_isna PyNone = True"
| "pd_isna (PyFloat x) = (x = NaN)"
| "pd_isna (NpFloat x) = (x = NaN)"
| "pd_isna _ = False"

text \<open>
  \<open>is_number\<close>: a numpy number (\<open>np.int64\<close>, \<open>np.float64\<close>; \<open>np.bool_\<close> is not one)
  is numeric when finite; otherwise the test is \<open>isinstance(x, (int, float))\<close>, which a
  Python \<open>bool\<close> passes and a \<open>str\<close> does not. Neither test raises, so the handler
  that would try \<open>float(x)\<close> is never entered.
\<close>

fun is_number :: "cell \<Rightarrow> bool" where
  "is_number (NpInt _) = True"
| "is_number (NpFloat x) = isfinite x"
| "is_number (PyBool _) = True"
| "is_number (PyInt _) = True"
| "is_number (PyFloat _) = True"
| "is_number _ = False"

section \<open>Strings\<close>

text \<open>\<open>str.strip()\<close> removes the characters that \<open>str.isspace\<close> accepts, at both
  ends; \<open>str.lower()\<close> maps the upper-case letters to their lower-case ones.\<close>

definition py_isspace :: "char \<Rightarrow> bool" where
  "py_isspace c =
     (let n = (of_char c :: nat)
      in (9 \<le> n \<and> n \<le> 13) \<or> (28 \<le> n \<and> n \<le> 32) \<or> n = 133 \<or> n = 160)"

definition py_strip :: "string \<Rightarrow> string" where
  "py_strip s = rev (dropWhile py_isspace (rev (dropWhile py_isspace s)))"

definition lower_char :: "char \<Rightarrow> char" where
  "lower_char c =
     (let n = (of_char c :: nat)
      in if (65 \<le> n \<and> n \<le> 90) \<or> (192 \<le> n \<and> n \<le> 222 \<and> n \<noteq> 215)
         then char_of (n + 32) else c)"

definition py_lower :: "string \<Rightarrow> string" where
  "py_lower s = map lower_char s"

definition digit_char :: "nat \<Rightarrow> char" where
  "digit_char d = char_of (48 + d)"

function str_nat :: "nat \<Rightarrow> string" where
  "str_nat n = (if n < 10 then [digit_char n] else str_nat (n div 10) @ [digit_char (n mod 10)])"
  by pat_completeness auto
termination
  by (relation "measure id") auto

declare str_nat.simps [simp del]

text \<open>\<open>str\<close> of an integer, in decimal (the interpreter's limit on the number of
  digits it will print is not modelled).\<close>

definition str_int :: "int \<Rightarrow> string" where
  "str_int n = (if n < 0 then CHR ''-'' # str_nat (nat (- n)) else str_nat (nat n))"

definition str_bool :: "bool \<Rightarrow> string" where
  "str_bool b = (if b then ''True'' else ''False'')"

text \<open>
  \<open>repr\<close> of a float: the shortest decimal digit string that rounds back to the same
  double (the closest one among those of that length), written in positional notation
  when the decimal point falls within \<open>-4 < decpt \<le> 16\<close> and in exponent notation
  otherwise.
\<close>

definition pow10 :: "int \<Rightarrow> rat" where
  "pow10 e = (if 0 \<le> e then 10 ^ nat e else 1 / 10 ^ nat (- e))"

definition ilog10 :: "rat \<Rightarrow> int" where
  \<comment> \<open>for \<open>0 < x\<close>: the exponent \<open>k\<close> with \<open>10 ^ k \<le> x < 10 ^ (k + 1)\<close>\<close>
  "ilog10 x =
     (let (p, q) = quotient_of x;
          k = int (floorlog 10 (nat p)) - int (floorlog 10 (nat q))
      in if pow10 k \<le> x then k else k - 1)"

definition digits_at :: "rat \<Rightarrow> nat \<Rightarrow> (int \<times> int) option" where
  \<comment> \<open>an \<open>n\<close>-digit decimal \<open>d * 10 ^ e\<close> that rounds to \<open>a\<close>, the closest if there are two\<close>
  "digits_at a n =
     (let e = ilog10 a - int n + 1;
          lo = \<lfloor>a / pow10 e\<rfloor>;
          ok = (\<lambda>d. round_double (of_int d * pow10 e) = Fin a);
          near = (\<bar>of_int lo * pow10 e - a\<bar> \<le> \<bar>of_int (lo + 1) * pow10 e - a\<bar>)
      in if ok lo \<and> (near \<or> \<not> ok (lo + 1)) then Some (lo, e)
         else if ok (lo + 1) then Some (lo + 1, e)
         else None)"

fun shortest_digits :: "rat \<Rightarrow> nat list \<Rightarrow> int \<times> int" where
  "shortest_digits a [] = (\<lfloor>a / pow10 (ilog10 a - 16)\<rfloor>, ilog10 a - 16)"
| "shortest_digits a (n # ns) =
     (case digits_at a n of Some r \<Rightarrow> r | None \<Rightarrow> shortest_digits a ns)"

definition strip_zeros :: "string \<Rightarrow> string" where
  "strip_zeros s = rev (dropWhile (\<lambda>c. c = CHR ''0'') (rev s))"

definition repr_exponent :: "int \<Rightarrow> string" where
  "repr_exponent e =
     (let m = str_nat (nat \<bar>e\<bar>)
      in CHR ''e'' # (if e < 0 then CHR ''-'' else CHR ''+'')
           # (if length m < 2 then CHR ''0'' # m else m))"

definition repr_positive :: "rat \<Rightarrow> string" where
  "repr_positive a =
     (let (d, e) = shortest_digits a [1..<18];
          ds0 = str_nat (nat d);
          decpt = int (length ds0) + e;
          ds = strip_zeros ds0
      in if - 4 < decpt \<and> decpt \<le> 16
         then (if decpt \<le> 0 then ''0.'' @ replicate (nat (- decpt)) CHR ''0'' @ ds
               else if int (length ds) \<le> decpt
               then ds @ replicate (nat decpt - length ds) CHR ''0'' @ ''.0''
               else take (nat decpt) ds @ CHR ''.'' # drop (nat decpt) ds)
         else (case ds of
                 [] \<Rightarrow> []
               | c # cs \<Rightarrow> c # (if cs = [] then [] else CHR ''.'' # cs))
              @ repr_exponent (decpt - 1))"

fun repr_float :: "fl \<Rightarrow> string" where
  "repr_float NaN = ''nan''"
| "repr_float PInf = ''inf''"
| "repr_float NInf = ''-inf''"
| "repr_float (Fin x) =
     (if x = 0 then ''0.0''
      else if x < 0 then CHR ''-'' # repr_positive (- x)
      else repr_positive x)"

text \<open>\<open>str(x)\<close>.\<close>

fun py_str :: "cell \<Rightarrow> string" where
  "py_str PyNone = ''None''"
| "py_str (PyBool b) = str_bool b"
| "py_str (PyInt n) = str_int n"
| "py_str (PyFloat x) = repr_float x"
| "py_str (PyStr s) = s"
| "py_str (NpBool b) = str_bool b"
| "py_str (NpInt w) = str_int (sint w)"
| "py_str (NpFloat x) = repr_float x"

section \<open>The equality predicate\<close>

text \<open>The exact number a numeric cell denotes, for Python's \<open>==\<close> across numeric types.\<close>

fun exact :: "cell \<Rightarrow> fl option" where
  "exact (PyBool b) = Some (Fin (if b then 1 else 0))"
| "exact (NpBool b) = Some (Fin (if b then 1 else 0))"
| "exact (PyInt n) = Some (Fin (of_int n))"
| "exact (NpInt w) = Some (Fin (of_int (sint w)))"
| "exact (PyFloat x) = Some x"
| "exact (NpFloat x) = Some x"
| "exact _ = None"

definition py_eq :: "cell \<Rightarrow> cell \<Rightarrow> bool" where
  "py_eq a b =
     (case (a, b) of
        (PyNone, PyNone) \<Rightarrow> True
      | (PyStr s, PyStr t) \<Rightarrow> s = t
      | _ \<Rightarrow> (case (exact a, exact b) of
                (Some x, Some y) \<Rightarrow> x \<noteq> NaN \<and> x = y
              | _ \<Rightarrow> False))"

text \<open>The body of the first \<open>try\<close>: \<open>abs(float(a) - float(b)) <= tol\<close>.\<close>

definition numeric_body :: "cell \<Rightarrow> cell \<Rightarrow> fl \<Rightarrow> exn + bool" where
  "numeric_body a b tol =
     (case py_float a of
        Inl e \<Rightarrow> Inl e
      | Inr x \<Rightarrow> (case py_float b of
                    Inl e \<Rightarrow> Inl e
                  | Inr y \<Rightarrow> Inr (fle (fabs (fsub x y)) tol)))"

text \<open>The body of the second \<open>try\<close>.\<close>

definition text_body :: "cell \<Rightarrow> cell \<Rightarrow> bool \<Rightarrow> exn + bool" where
  "text_body a b ignore_case =
     (let sa = (if pd_isna a then [] else py_str a);
          sb = (if pd_isna b then [] else py_str b)
      in if ignore_case then Inr (py_lower (py_strip sa) = py_lower (py_strip sb))
         else Inr (py_strip sa = py_strip sb))"

definition text_step :: "cell \<Rightarrow> cell \<Rightarrow> bool \<Rightarrow> exn + bool" where
  "text_step a b ignore_case =
     (case text_body a b ignore_case of
        Inr r \<Rightarrow> Inr r
      | Inl _ \<Rightarrow> Inr (py_eq a b))"

definition compare_values ::
  "cell \<Rightarrow> cell \<Rightarrow> fl \<Rightarrow> bool \<Rightarrow> exn + bool" where
  "compare_values a b tol ignore_case =
     (if a = PyNone \<and> b = PyNone then Inr True
      else if pd_isna a \<and> pd_isna b then Inr True
      else if is_number a \<and> is_number b then
        (case numeric_body a b tol of
           Inr r \<Rightarrow> Inr r
         | Inl _ \<Rightarrow> text_step a b ignore_case)
      else text_step a b ignore_case)"

section \<open>Tables\<close>

text \<open>
  A \<open>DataFrame\<close> as \<open>compare_sheets\<close> uses it: the column labels in their order and the
  rows by position, each row holding one cell per column. The labels are strings already,
  so \<open>normalize_dataframe\<close> (labels through \<open>str\<close>, index reset to \<open>0, 1, ...\<close>) leaves
  such a frame as it is. A cell is the value \<open>df.at\<close> returns for it; reindexing keeps
  the cells it does not fill (the change of a column's dtype that pandas may make when it
  pads a column is outside this model). The fill value \<open>np.nan\<close> is the Python float
  NaN.
\<close>

record dataframe =
  columns :: "string list"
  rows :: "cell list list"


definition np_nan :: cell where
  "np_nan = PyFloat NaN"

definition normalize_dataframe :: "dataframe \<Rightarrow> dataframe" where
  "normalize_dataframe df = df"

definition row_cell :: "string list \<Rightarrow> cell list \<Rightarrow> string \<Rightarrow> cell" where
  "row_cell cols row c = (case map_of (zip cols row) c of Some v \<Rightarrow> v | None \<Rightarrow> np_nan)"

text \<open>\<open>df.reindex(columns=cols, fill_value=np.nan)\<close>; pandas refuses to reindex an axis
  with duplicate labels.\<close>

definition reindex_columns :: "dataframe \<Rightarrow> string list \<Rightarrow> exn + dataframe" where
  "reindex_columns df cols =
     (if distinct (columns df)
      then Inr \<lparr>columns = cols,
                rows = map (\<lambda>row. map (row_cell (columns df) row) cols) (rows df)\<rparr>
      else Inl ValueError)"

text \<open>\<open>df.reindex(range(n), fill_value=np.nan)\<close>.\<close>

definition reindex_rows :: "dataframe \<Rightarrow> nat \<Rightarrow> dataframe" where
  "reindex_rows df n =
     df\<lparr>rows := take n (rows df)
                 @ replicate (n - length (rows df)) (replicate (length (columns df)) np_nan)\<rparr>"

definition all_columns_of :: "dataframe \<Rightarrow> dataframe \<Rightarrow> string list" where
  "all_columns_of l r = sorted_list_of_set (set (columns l) \<union> set (columns r))"

text \<open>Lines 128 to 135 of \<open>compare_sheets\<close>: both frames on the same columns and rows.\<close>

definition align :: "dataframe \<Rightarrow> dataframe \<Rightarrow> exn + (dataframe \<times> dataframe)" where
  "align df_left df_right =
     (let l = normalize_dataframe df_left;
          r = normalize_dataframe df_right;
          all_columns = all_columns_of l r;
          max_rows = max (length (rows l)) (length (rows r))
      in case reindex_columns l all_columns of
           Inl e \<Rightarrow> Inl e
         | Inr l1 \<Rightarrow>
             (case reindex_columns r all_columns of
                Inl e \<Rightarrow> Inl e
              | Inr r1 \<Rightarrow> Inr (reindex_rows l1 max_rows, reindex_rows r1 max_rows)))"

text \<open>\<open>df.at[r, c]\<close>.\<close>

definition df_at :: "dataframe \<Rightarrow> nat \<Rightarrow> string \<Rightarrow> exn + cell" where
  "df_at df r c =
     (if r < length (rows df) \<and> c \<in> set (columns df)
      then Inr (row_cell (columns df) (rows df ! r) c)
      else Inl KeyError)"

definition fetch :: "dataframe \<Rightarrow> nat \<Rightarrow> string \<Rightarrow> exn + cell" where
  "fetch df r c = (if c \<in> set (columns df) then df_at df r c else Inr np_nan)"

section \<open>The sweep\<close>

record diff_record =
  sheet :: string
  row_index :: nat
  excel_row :: nat
  column :: string
  left_value :: cell
  right_value :: cell

datatype summary =
    Comparison (s_sheet: string) (left_rows: nat) (right_rows: nat)
      (left_cols: nat) (right_cols: nat) (diff_count: nat)
  | Presence (p_sheet: string) (p_note: string)

record params =
  tol :: fl
  ignore_case :: bool

text \<open>The loop body for one \<open>(r, c)\<close>: the list of differences, possibly longer by one.\<close>

definition visit ::
  "params \<Rightarrow> dataframe \<Rightarrow> dataframe \<Rightarrow> string \<Rightarrow> nat \<Rightarrow> string
     \<Rightarrow> diff_record list \<Rightarrow> exn + diff_record list" where
  "visit p dl dr sheet_name r c ds =
     (case fetch dl r c of
        Inl e \<Rightarrow> Inl e
      | Inr a \<Rightarrow>
          (case fetch dr r c of
             Inl e \<Rightarrow> Inl e
           | Inr b \<Rightarrow>
               (case compare_values a b (tol p) (ignore_case p) of
                  Inl e \<Rightarrow> Inl e
                | Inr eq \<Rightarrow>
                    if \<not> eq
                    then Inr (ds @ [\<lparr>sheet = sheet_name, row_index = r, excel_row = r + 1,
                                       column = c, left_value = a, right_value = b\<rparr>])
                    else Inr ds)))"

fun sweep_columns ::
  "params \<Rightarrow> dataframe \<Rightarrow> dataframe \<Rightarrow> string \<Rightarrow> nat \<Rightarrow> string list
     \<Rightarrow> diff_record list \<Rightarrow> exn + diff_record list" where
  "sweep_columns p dl dr sheet_name r [] ds = Inr ds"
| "sweep_columns p dl dr sheet_name r (c # cs) ds =
     (case visit p dl dr sheet_name r c ds of
        Inl e \<Rightarrow> Inl e
      | Inr ds' \<Rightarrow> sweep_columns p dl dr sheet_name r cs ds')"

fun sweep_rows ::
  "params \<Rightarrow> dataframe \<Rightarrow> dataframe \<Rightarrow> string \<Rightarrow> string list \<Rightarrow> nat list
     \<Rightarrow> diff_record list \<Rightarrow> exn + diff_record list" where
  "sweep_rows p dl dr sheet_name cols [] ds = Inr ds"
| "sweep_rows p dl dr sheet_name cols (r # rs) ds =
     (case sweep_columns p dl dr sheet_name r cols ds of
        Inl e \<Rightarrow> Inl e
      | Inr ds' \<Rightarrow> sweep_rows p dl dr sheet_name cols rs ds')"

definition compare_sheets ::
  "params \<Rightarrow> dataframe \<Rightarrow> dataframe \<Rightarrow> string \<Rightarrow> exn + (diff_record list \<times> summary)" where
  "compare_sheets p df_left df_right sheet_name =
     (let all_columns = all_columns_of (normalize_dataframe df_left) (normalize_dataframe df_right);
          max_rows = max (length (rows df_left)) (length (rows df_right))
      in case align df_left df_right of
           Inl e \<Rightarrow> Inl e
         | Inr (dl, dr) \<Rightarrow>
             (case sweep_rows p dl dr sheet_name all_columns [0..<max_rows] [] of
                Inl e \<Rightarrow> Inl e
              | Inr ds \<Rightarrow>
                  Inr (ds,
                       Comparison sheet_name (length (rows df_left)) (length (rows df_right))
                         (length (columns df_left)) (length (columns df_right))
                         (length ds))))"

section \<open>The request handler\<close>

text \<open>
  The part of \<open>upload_and_compare\<close> between reading the two workbooks and writing the
  result: a workbook is the dictionary \<open>pd.read_excel(..., sheet_name=None)\<close> returns,
  kept as an association list; the answer is either the form again with a flashed message
  or the differences and summaries that go into the output workbook.
\<close>

type_synonym workbook = "(string \<times> dataframe) list"

datatype response = Form string | Report "diff_record list" "summary list"

text \<open>\<open>s.split(",")\<close>.\<close>

fun split_comma :: "string \<Rightarrow> string list" where
  "split_comma [] = [[]]"
| "split_comma (x # xs) =
     (if x = CHR '','' then [] # split_comma xs
      else (case split_comma xs of
              [] \<Rightarrow> [[x]]
            | w # ws \<Rightarrow> (x # w) # ws))"

definition requested_of :: "string \<Rightarrow> string list" where
  "requested_of sheets_input =
     map py_strip (filter (\<lambda>s. py_strip s \<noteq> []) (split_comma sheets_input))"

fun compare_all ::
  "params \<Rightarrow> workbook \<Rightarrow> workbook \<Rightarrow> string list \<Rightarrow> diff_record list \<Rightarrow> summary list
     \<Rightarrow> exn + (diff_record list \<times> summary list)" where
  "compare_all p left_book right_book [] all_diffs summaries = Inr (all_diffs, summaries)"
| "compare_all p left_book right_book (sh # rest) all_diffs summaries =
     (if sh \<notin> set (map fst left_book)
      then compare_all p left_book right_book rest all_diffs
             (summaries @ [Presence sh ''only_in_right''])
      else if sh \<notin> set (map fst right_book)
      then compare_all p left_book right_book rest all_diffs
             (summaries @ [Presence sh ''only_in_left''])
      else (case (map_of left_book sh, map_of right_book sh) of
              (Some df_left, Some df_right) \<Rightarrow>
                (case compare_sheets p df_left df_right sh of
                   Inl e \<Rightarrow> Inl e
                 | Inr (ds, summ) \<Rightarrow>
                     compare_all p left_book right_book rest (all_diffs @ ds)
                       (summaries @ [summ]))
            | _ \<Rightarrow> Inl KeyError))"

definition sheets_to_compare :: "string \<Rightarrow> workbook \<Rightarrow> workbook \<Rightarrow> string list" where
  "sheets_to_compare sheets_input left_book right_book =
     (if sheets_input \<noteq> []
      then filter (\<lambda>s. s \<in> set (map fst left_book) \<or> s \<in> set (map fst right_book))
             (requested_of sheets_input)
      else sorted_list_of_set (set (map fst left_book) \<union> set (map fst right_book)))"

definition upload_and_compare ::
  "params \<Rightarrow> string option \<Rightarrow> workbook \<Rightarrow> workbook \<Rightarrow> exn + response" where
  "upload_and_compare p form_sheets left_book right_book =
     (let sheets_input = py_strip (case form_sheets of None \<Rightarrow> [] | Some s \<Rightarrow> s);
          sheets = sheets_to_compare sheets_input left_book right_book
      in if sheets_input \<noteq> [] \<and> sheets = []
         then Inr (Form ''No requested sheets found in either file.'')
         else (case compare_all p left_book right_book sheets [] [] of
                 Inl e \<Rightarrow> Inl e
               | Inr (all_diffs, summaries) \<Rightarrow> Inr (Report all_diffs summaries)))"

section \<open>What the sweep computes\<close>

text \<open>
  The cell a table holds at a position, or the null marker where the table has no such
  row or column; and the differences one position contributes.
\<close>

definition original_cell :: "dataframe \<Rightarrow> nat \<Rightarrow> string \<Rightarrow> cell" where
  "original_cell df r c =
     (if r < length (rows df) \<and> c \<in> set (columns df)
      then row_cell (columns df) (rows df ! r) c
      else np_nan)"

definition diff_at ::
  "params \<Rightarrow> string \<Rightarrow> dataframe \<Rightarrow> dataframe \<Rightarrow> nat \<Rightarrow> string \<Rightarrow> diff_record list" where
  "diff_at p sheet_name l r i c =
     (if compare_values (original_cell l i c) (original_cell r i c) (tol p) (ignore_case p)
         = Inr False
      then [\<lparr>sheet = sheet_name, row_index = i, excel_row = i + 1, column = c,
             left_value = original_cell l i c, right_value = original_cell r i c\<rparr>]
      else [])"

definition sheet_diffs ::
  "params \<Rightarrow> string \<Rightarrow> dataframe \<Rightarrow> dataframe \<Rightarrow> diff_record list" where
  "sheet_diffs p sheet_name l r =
     concat (map (\<lambda>i. concat (map (diff_at p sheet_name l r i) (all_columns_of l r)))
               [0..<max (length (rows l)) (length (rows r))])"

fun summary_name :: "summary \<Rightarrow> string" where
  "summary_name (Comparison s _ _ _ _ _) = s"
| "summary_name (Presence s _) = s"

section \<open>Notions used in the proofs about strings\<close>





section \<open>Evaluation and basic facts\<close>

lemmas str_eval = py_strip_def py_isspace_def py_lower_def lower_char_def digit_char_def
  char_of_def bit_0 bit_Suc str_bool_def str_int_def str_nat.simps

lemma round_double_0: "round_double 0 = Fin 0"
  by (simp add: round_double_def)

lemma round_double_1: "round_double 1 = Fin 1"
  by (simp add: round_double_def ilog2_def pow2_def round_half_even_def Let_def)

lemma float_of_int_0: "float_of_int 0 = Inr (Fin 0)"
  by (simp add: float_of_int_def round_double_0)

lemma float_of_int_1: "float_of_int 1 = Inr (Fin 1)"
  by (simp add: float_of_int_def round_double_1)

lemma text_step_eq:
  "text_step a b ic =
     Inr (if ic
          then py_lower (py_strip (if pd_isna a then [] else py_str a))
               = py_lower (py_strip (if pd_isna b then [] else py_str b))
          else py_strip (if pd_isna a then [] else py_str a)
               = py_strip (if pd_isna b then [] else py_str b))"
  by (simp add: text_step_def text_body_def Let_def)


section \<open>Rounding to a double\<close>

lemma pow2_powi: "pow2 e = 2 powi e"
  unfolding pow2_def power_int_def by (simp add: inverse_eq_divide power_one_over)

lemma pow2_pos: "0 < pow2 e"
  by (simp add: pow2_powi)

lemma pow2_add: "pow2 (a + b) = pow2 a * pow2 b"
  by (simp add: pow2_powi power_int_add)

lemma pow2_mono: "a \<le> b \<Longrightarrow> pow2 a \<le> pow2 b"
  by (simp add: pow2_powi power_int_increasing)

lemma pow2_strict_mono: "a < b \<Longrightarrow> pow2 a < pow2 b"
  by (simp add: pow2_powi power_int_strict_increasing)

lemma pow2_less_cancel: "pow2 a < pow2 b \<Longrightarrow> a < b"
  using pow2_mono [of b a] by (cases "a < b") auto

lemma pow2_nat: "pow2 (int n) = 2 ^ n"
  by (simp add: pow2_def)

lemma ilog2_bounds:
  assumes "0 < x"
  shows "pow2 (ilog2 x) \<le> x" and "x < pow2 (ilog2 x + 1)"
proof -
  obtain p q where pq: "quotient_of x = (p, q)" by (cases "quotient_of x")
  then have q: "0 < q" and x: "x = of_int p / of_int q"
    by (simp_all add: quotient_of_denom_pos quotient_of_div)
  with assms have p: "0 < p"
    by (simp add: zero_less_divide_iff)
  let ?bp = "bitlen p" and ?bq = "bitlen q"
  from bitlen_bounds [OF p] have p1: "2 ^ nat (?bp - 1) \<le> p" and p2: "p < 2 ^ nat ?bp" by auto
  from bitlen_bounds [OF q] have q1: "2 ^ nat (?bq - 1) \<le> q" and q2: "q < 2 ^ nat ?bq" by auto
  have bp: "1 \<le> ?bp" using p by (simp add: bitlen_alt_def)
  have bq: "1 \<le> ?bq" using q by (simp add: bitlen_alt_def)
  have P1: "pow2 (?bp - 1) \<le> of_int p"
  proof -
    have "(of_int (2 ^ nat (?bp - 1)) :: rat) \<le> of_int p" using p1 by (simp only: of_int_le_iff)
    moreover have "pow2 (?bp - 1) = 2 ^ nat (?bp - 1)" using bp by (simp add: pow2_def)
    ultimately show ?thesis by simp
  qed
  have P2: "of_int p < pow2 ?bp"
  proof -
    have "(of_int p :: rat) < of_int (2 ^ nat ?bp)" using p2 by (simp only: of_int_less_iff)
    moreover have "pow2 ?bp = 2 ^ nat ?bp" using bp by (simp add: pow2_def)
    ultimately show ?thesis by simp
  qed
  have Q1: "pow2 (?bq - 1) \<le> of_int q"
  proof -
    have "(of_int (2 ^ nat (?bq - 1)) :: rat) \<le> of_int q" using q1 by (simp only: of_int_le_iff)
    moreover have "pow2 (?bq - 1) = 2 ^ nat (?bq - 1)" using bq by (simp add: pow2_def)
    ultimately show ?thesis by simp
  qed
  have Q2: "of_int q < pow2 ?bq"
  proof -
    have "(of_int q :: rat) < of_int (2 ^ nat ?bq)" using q2 by (simp only: of_int_less_iff)
    moreover have "pow2 ?bq = 2 ^ nat ?bq" using bq by (simp add: pow2_def)
    ultimately show ?thesis by simp
  qed
  have qpos: "(0::rat) < of_int q" using q by simp
  \<comment> \<open>lower: pow2 (bp - bq - 1) < x\<close>
  have low: "pow2 (?bp - ?bq - 1) < x"
  proof -
    have "pow2 (?bp - ?bq - 1) * of_int q < pow2 (?bp - ?bq - 1) * pow2 ?bq"
      using Q2 pow2_pos by (simp add: mult_strict_left_mono)
    also have "\<dots> = pow2 (?bp - 1)" by (simp add: pow2_add [symmetric])
    also have "\<dots> \<le> of_int p" by (rule P1)
    finally show ?thesis using qpos by (simp add: x pos_less_divide_eq)
  qed
  have up: "x < pow2 (?bp - ?bq + 1)"
  proof -
    have "of_int p < pow2 ?bp" by (rule P2)
    also have "\<dots> = pow2 (?bp - ?bq + 1) * pow2 (?bq - 1)" by (simp add: pow2_add [symmetric])
    also have "\<dots> \<le> pow2 (?bp - ?bq + 1) * of_int q"
      using Q1 pow2_pos [of "?bp - ?bq + 1"] by (simp add: mult_left_mono)
    finally show ?thesis using qpos by (simp add: x pos_divide_less_eq)
  qed
  have il: "ilog2 x = (if pow2 (?bp - ?bq) \<le> x then ?bp - ?bq else ?bp - ?bq - 1)"
    by (simp add: ilog2_def pq Let_def)
  show "pow2 (ilog2 x) \<le> x" using low by (auto simp: il)
  show "x < pow2 (ilog2 x + 1)" using up by (auto simp: il)
qed

lemma ilog2_unique:
  assumes "0 < x" "pow2 e \<le> x" "x < pow2 (e + 1)"
  shows "ilog2 x = e"
proof -
  from ilog2_bounds [OF assms(1)] have a: "pow2 (ilog2 x) \<le> x" and b: "x < pow2 (ilog2 x + 1)" .
  from a assms(3) have "pow2 (ilog2 x) < pow2 (e + 1)" by simp
  then have "ilog2 x < e + 1" by (rule pow2_less_cancel)
  moreover from assms(2) b have "pow2 e < pow2 (ilog2 x + 1)" by simp
  then have "e < ilog2 x + 1" by (rule pow2_less_cancel)
  ultimately show ?thesis by simp
qed


lemma round_half_even_int: "round_half_even (of_int n) = n"
  by (simp add: round_half_even_def)

lemma round_half_even_ge1:
  assumes "1 \<le> x"
  shows "1 \<le> round_half_even x"
proof -
  from assms have "1 \<le> \<lfloor>x\<rfloor>" by (simp add: le_floor_iff)
  then show ?thesis by (auto simp: round_half_even_def Let_def)
qed

lemma round_half_even_neg: "round_half_even (- x) = - round_half_even x"
proof (cases "x \<in> \<int>")
  case True
  then obtain n where "x = of_int n" by (auto elim: Ints_cases)
  then show ?thesis
    using round_half_even_int [of n] round_half_even_int [of "- n"] by simp
next
  case False
  then have ne: "x \<noteq> of_int \<lfloor>x\<rfloor>"
    by (metis Ints_of_int)
  then have fl: "\<lfloor>- x\<rfloor> = - \<lfloor>x\<rfloor> - 1"
    by (simp add: floor_minus ceiling_altdef)
  have fr: "x - of_int \<lfloor>x\<rfloor> \<noteq> 0" using ne by simp
  show ?thesis
    unfolding round_half_even_def Let_def fl using fr
    by (auto simp: algebra_simps)
qed

lemma round_half_even_nonzero:
  assumes "1 \<le> \<bar>x\<bar>"
  shows "round_half_even x \<noteq> 0"
proof (cases "0 \<le> x")
  case True
  with assms have "1 \<le> x" by simp
  from round_half_even_ge1 [OF this] show ?thesis by simp
next
  case False
  with assms have "1 \<le> - x" by simp
  from round_half_even_ge1 [OF this] show ?thesis
    by (simp add: round_half_even_neg)
qed

lemma round_double_eval:
  assumes "0 < x" "pow2 e \<le> x" "x < pow2 (e + 1)"
  shows "round_double x =
     (if pow2 1024 \<le> \<bar>of_int (round_half_even (x / pow2 (max (e - 52) (- 1074))))
                        * pow2 (max (e - 52) (- 1074))\<bar>
      then PInf
      else Fin (of_int (round_half_even (x / pow2 (max (e - 52) (- 1074))))
                * pow2 (max (e - 52) (- 1074))))"
proof -
  from assms have "ilog2 \<bar>x\<bar> = e" by (simp add: ilog2_unique)
  with assms(1) show ?thesis by (simp add: round_double_def Let_def)
qed

lemma pow2_int_factor:
  assumes "a \<le> b"
  shows "pow2 b = of_int (2 ^ nat (b - a)) * pow2 a"
proof -
  have "pow2 b = pow2 (int (nat (b - a)) + a)" using assms by simp
  also have "\<dots> = pow2 (int (nat (b - a))) * pow2 a" by (rule pow2_add)
  also have "pow2 (int (nat (b - a))) = 2 ^ nat (b - a)"
    by (rule pow2_nat)
  finally show ?thesis by simp
qed

lemma round_double_exact:
  assumes x: "x = of_int m * pow2 e'" and m: "\<bar>m\<bar> < 2 ^ 53"
    and e': "- 1074 \<le> e'" and bound: "\<bar>x\<bar> < pow2 1024"
  shows "round_double x = Fin x"
proof (cases "x = 0")
  case True
  then show ?thesis by (simp add: round_double_def)
next
  case False
  let ?E = "max (ilog2 \<bar>x\<bar> - 52) (- 1074)"
  have xpos: "0 < \<bar>x\<bar>" using False by simp
  have "\<bar>x\<bar> = of_int \<bar>m\<bar> * pow2 e'"
    using pow2_pos [of e'] by (simp add: x abs_mult)
  also have "\<dots> < of_int (2 ^ 53) * pow2 e'"
    using m pow2_pos [of e'] by (simp only: mult_less_cancel_right_pos of_int_less_iff)
  also have "\<dots> = pow2 53 * pow2 e'"
    by (simp add: pow2_def)
  also have "\<dots> = pow2 (53 + e')"
    by (rule pow2_add [symmetric])
  finally have "\<bar>x\<bar> < pow2 (53 + e')" .
  with ilog2_bounds(1) [OF xpos] have "pow2 (ilog2 \<bar>x\<bar>) < pow2 (53 + e')" by simp
  then have "ilog2 \<bar>x\<bar> < 53 + e'" by (rule pow2_less_cancel)
  with e' have E: "?E \<le> e'" by simp
  have "pow2 e' = of_int (2 ^ nat (e' - ?E)) * pow2 ?E"
    using E by (rule pow2_int_factor)
  then have xE: "x = of_int (m * 2 ^ nat (e' - ?E)) * pow2 ?E"
    by (simp add: x)
  have "x / pow2 ?E = of_int (m * 2 ^ nat (e' - ?E))"
    using pow2_pos [of ?E] by (subst xE) simp
  then have "round_half_even (x / pow2 ?E) = m * 2 ^ nat (e' - ?E)"
    by (simp only: round_half_even_int)
  then have y: "of_int (round_half_even (x / pow2 ?E)) * pow2 ?E = x"
    using xE by simp
  show ?thesis
    using False bound unfolding round_double_def Let_def y by simp
qed

lemma round_double_int:
  assumes "\<bar>n\<bar> < 2 ^ 53"
  shows "round_double (of_int n) = Fin (of_int n)"
proof (rule round_double_exact [where m = n and e' = 0])
  show "of_int n = of_int n * pow2 0" by (simp add: pow2_def)
  show "\<bar>n\<bar> < 2 ^ 53" by (rule assms)
  show "- 1074 \<le> (0::int)" by simp
  have "\<bar>of_int n :: rat\<bar> = of_int \<bar>n\<bar>" by simp
  also have "\<dots> < of_int (2 ^ 53)" using assms by (simp only: of_int_less_iff)
  also have "\<dots> \<le> pow2 1024" by (simp add: pow2_def)
  finally show "\<bar>of_int n :: rat\<bar> < pow2 1024" .
qed

lemma round_double_grid:
  assumes "round_double x = Fin y"
  shows "\<exists>k. y = of_int k * pow2 (- 1074)"
proof (cases "x = 0")
  case True
  with assms have "y = 0" by (simp add: round_double_def)
  then show ?thesis by (intro exI [of _ 0]) simp
next
  case False
  let ?E = "max (ilog2 \<bar>x\<bar> - 52) (- 1074)"
  let ?r = "round_half_even (x / pow2 ?E)"
  from assms False have y: "y = of_int ?r * pow2 ?E"
    by (simp add: round_double_def Let_def split: if_splits)
  have "pow2 ?E = of_int (2 ^ nat (?E - (- 1074))) * pow2 (- 1074)"
    by (rule pow2_int_factor) simp
  with y have "y = of_int (?r * 2 ^ nat (?E - (- 1074))) * pow2 (- 1074)"
    by simp
  then show ?thesis by blast
qed

lemma round_double_nonzero:
  assumes "pow2 (- 1074) \<le> \<bar>x\<bar>"
  shows "round_double x \<noteq> Fin 0"
proof -
  let ?E = "max (ilog2 \<bar>x\<bar> - 52) (- 1074)"
  let ?r = "round_half_even (x / pow2 ?E)"
  from assms pow2_pos [of "- 1074"] have xpos: "0 < \<bar>x\<bar>" by linarith
  then have x0: "x \<noteq> 0" by simp
  have "pow2 ?E \<le> \<bar>x\<bar>"
  proof (cases "ilog2 \<bar>x\<bar> - 52 \<le> - 1074")
    case True
    then have "?E = - 1074" by simp
    with assms show ?thesis by simp
  next
    case False
    then have "?E = ilog2 \<bar>x\<bar> - 52" by simp
    then have "pow2 ?E \<le> pow2 (ilog2 \<bar>x\<bar>)" by (simp add: pow2_mono)
    with ilog2_bounds(1) [OF xpos] show ?thesis by simp
  qed
  then have "1 \<le> \<bar>x / pow2 ?E\<bar>"
    using pow2_pos [of ?E] by (simp add: pos_le_divide_eq)
  then have "?r \<noteq> 0" by (rule round_half_even_nonzero)
  then have "of_int ?r * pow2 ?E \<noteq> 0"
    using pow2_pos [of ?E] by simp
  with x0 show ?thesis
    by (simp add: round_double_def Let_def)
qed

lemma fsub_zero_iff:
  assumes "round_double a = Fin a" "round_double b = Fin b"
  shows "round_double (a - b) = Fin 0 \<longleftrightarrow> a = b"
proof
  assume z: "round_double (a - b) = Fin 0"
  show "a = b"
  proof (rule ccontr)
    assume ne: "a \<noteq> b"
    from round_double_grid [OF assms(1)] obtain ka where ka: "a = of_int ka * pow2 (- 1074)" ..
    from round_double_grid [OF assms(2)] obtain kb where kb: "b = of_int kb * pow2 (- 1074)" ..
    from ne ka kb have "ka \<noteq> kb" by auto
    then have "1 \<le> \<bar>ka - kb\<bar>" by simp
    then have "(1::rat) \<le> of_int \<bar>ka - kb\<bar>" by (simp only: of_int_1_le_iff)
    then have "pow2 (- 1074) \<le> of_int \<bar>ka - kb\<bar> * pow2 (- 1074)"
      using pow2_pos [of "- 1074"] by simp
    also have "\<dots> = \<bar>a - b\<bar>"
      using pow2_pos [of "- 1074"] by (simp add: ka kb abs_mult left_diff_distrib [symmetric])
    finally have "round_double (a - b) \<noteq> Fin 0" by (rule round_double_nonzero)
    with z show False by simp
  qed
next
  assume "a = b"
  then show "round_double (a - b) = Fin 0" by (simp add: round_double_def)
qed

lemma floor_numeral_quotient:
  "\<lfloor>numeral a / numeral b :: rat\<rfloor> = numeral a div numeral b"
  using floor_divide_of_int_eq [of "numeral a" "numeral b", where ?'a = rat] by simp

lemma sum_5_07:
  "round_double (5 + 3152519739159347 / 4503599627370496)
   = Fin (6417629469002957 / 1125899906842624)"
proof -
  have "round_double (5 + 3152519739159347 / 4503599627370496) =
     (if pow2 1024 \<le> \<bar>of_int (round_half_even ((5 + 3152519739159347 / 4503599627370496) / pow2 (max (2 - 52) (- 1074))))
                        * pow2 (max (2 - 52) (- 1074))\<bar>
      then PInf
      else Fin (of_int (round_half_even ((5 + 3152519739159347 / 4503599627370496) / pow2 (max (2 - 52) (- 1074))))
                * pow2 (max (2 - 52) (- 1074))))"
    by (rule round_double_eval) (simp_all add: pow2_def)
  also have "\<dots> = Fin (6417629469002957 / 1125899906842624)"
    by (simp add: pow2_def round_half_even_def Let_def floor_numeral_quotient)
  finally show ?thesis .
qed

lemma diff_5_57:
  "round_double (- (788129934789837 / 1125899906842624))
   = Fin (- (788129934789837 / 1125899906842624))"
  by (rule round_double_exact [where m = "- 788129934789837" and e' = "- 50"])
     (simp_all add: pow2_def)

lemma fadd_5_07:
  "fadd (Fin 5) (Fin (3152519739159347 / 4503599627370496))
   = Fin (6417629469002957 / 1125899906842624)"
proof -
  have "fadd (Fin 5) (Fin (3152519739159347 / 4503599627370496))
        = round_double (5 + 3152519739159347 / 4503599627370496)"
    by (simp only: fadd.simps fneg.simps fsub.simps diff_minus_eq_add)
  then show ?thesis by (simp only: sum_5_07)
qed

lemma seven_tenths:
  "round_double (7 / 10) = Fin (3152519739159347 / 4503599627370496)"
proof -
  have "round_double (7 / 10) =
     (if pow2 1024 \<le> \<bar>of_int (round_half_even ((7 / 10) / pow2 (max (- 1 - 52) (- 1074))))
                        * pow2 (max (- 1 - 52) (- 1074))\<bar>
      then PInf
      else Fin (of_int (round_half_even ((7 / 10) / pow2 (max (- 1 - 52) (- 1074))))
                * pow2 (max (- 1 - 52) (- 1074))))"
    by (rule round_double_eval) (simp_all add: pow2_def)
  also have "\<dots> = Fin (3152519739159347 / 4503599627370496)"
    by (simp add: pow2_def round_half_even_def Let_def floor_numeral_quotient)
  finally show ?thesis .
qed


lemma fle_fabs_zero: "fle (fabs r) (Fin 0) \<longleftrightarrow> r = Fin 0"
  by (cases r) simp_all

lemma round_double_5: "round_double 5 = Fin 5"
  using round_double_int [of 5] by simp

lemma round_double_11_2: "round_double (11 / 2) = Fin (11 / 2)"
  by (rule round_double_exact [where m = 11 and e' = "- 1"]) (simp_all add: pow2_def)

lemma round_double_6: "round_double 6 = Fin 6"
  using round_double_int [of 6] by simp

lemma round_double_half: "round_double (- (1 / 2)) = Fin (- (1 / 2))"
  by (rule round_double_exact [where m = "- 1" and e' = "- 1"]) (simp_all add: pow2_def)

lemma round_double_m1: "round_double (- 1) = Fin (- 1)"
  using round_double_int [of "- 1"] by simp

section \<open>Alignment and the sweep, as functions of the two tables\<close>

lemma compare_values_returns: "\<exists>r. compare_values a b t ic = Inr r"
  by (auto simp: compare_values_def text_step_eq split: sum.splits)



lemma row_cell_absent: "c \<notin> set cols \<Longrightarrow> row_cell cols row c = np_nan"
proof -
  assume "c \<notin> set cols"
  then have "map_of (zip cols row) c = None"
    by (auto simp: map_of_eq_None_iff dest: set_zip_leftD)
  then show ?thesis by (simp add: row_cell_def)
qed

lemma row_cell_map: "c \<in> set cols \<Longrightarrow> row_cell cols (map f cols) c = f c"
  by (simp add: row_cell_def map_of_zip_map)

lemma row_cell_pad: "row_cell cols (replicate k np_nan) c = np_nan"
proof (cases "map_of (zip cols (replicate k np_nan)) c")
  case None
  then show ?thesis by (simp add: row_cell_def)
next
  case (Some v)
  then have "(c, v) \<in> set (zip cols (replicate k np_nan))" by (rule map_of_SomeD)
  then have "v \<in> set (replicate k np_nan)" by (rule set_zip_rightD)
  then have "v = np_nan" by simp
  with Some show ?thesis by (simp add: row_cell_def)
qed

lemma align_distinct:
  assumes "distinct (columns l)" "distinct (columns r)"
  shows "align l r =
    Inr (reindex_rows \<lparr>columns = all_columns_of l r,
                       rows = map (\<lambda>row. map (row_cell (columns l) row) (all_columns_of l r)) (rows l)\<rparr>
           (max (length (rows l)) (length (rows r))),
         reindex_rows \<lparr>columns = all_columns_of l r,
                       rows = map (\<lambda>row. map (row_cell (columns r) row) (all_columns_of l r)) (rows r)\<rparr>
           (max (length (rows l)) (length (rows r))))"
  using assms by (simp add: align_def normalize_dataframe_def reindex_columns_def Let_def)

lemma fetch_reindexed:
  assumes "length (rows df) \<le> m" "i < m" "c \<in> set ac"
  shows "fetch (reindex_rows \<lparr>columns = ac,
                   rows = map (\<lambda>row. map (row_cell (columns df) row) ac) (rows df)\<rparr> m) i c
         = Inr (original_cell df i c)"
proof (cases "i < length (rows df)")
  case True
  with assms show ?thesis
    by (auto simp: fetch_def df_at_def reindex_rows_def original_cell_def nth_append
        row_cell_map row_cell_absent)
next
  case False
  with assms show ?thesis
    by (auto simp: fetch_def df_at_def reindex_rows_def original_cell_def nth_append
        row_cell_pad)
qed


lemma visit_eq:
  assumes "fetch dl i c = Inr (original_cell l i c)" "fetch dr i c = Inr (original_cell r i c)"
  shows "visit p dl dr nm i c acc = Inr (acc @ diff_at p nm l r i c)"
proof -
  obtain e where e: "compare_values (original_cell l i c) (original_cell r i c) (tol p) (ignore_case p) = Inr e"
    using compare_values_returns by blast
  with assms show ?thesis
    by (cases e) (simp_all add: visit_def diff_at_def)
qed

lemma sweep_columns_eq:
  assumes "\<forall>c \<in> set cs. fetch dl i c = Inr (original_cell l i c)
                        \<and> fetch dr i c = Inr (original_cell r i c)"
  shows "sweep_columns p dl dr nm i cs acc = Inr (acc @ concat (map (diff_at p nm l r i) cs))"
  using assms
proof (induction cs arbitrary: acc)
  case Nil
  then show ?case by simp
next
  case (Cons c cs)
  then have "visit p dl dr nm i c acc = Inr (acc @ diff_at p nm l r i c)"
    by (simp add: visit_eq)
  with Cons show ?case by simp
qed

lemma sweep_rows_eq:
  assumes "\<forall>i \<in> set is. \<forall>c \<in> set cs. fetch dl i c = Inr (original_cell l i c)
                        \<and> fetch dr i c = Inr (original_cell r i c)"
  shows "sweep_rows p dl dr nm cs is acc
         = Inr (acc @ concat (map (\<lambda>i. concat (map (diff_at p nm l r i) cs)) is))"
  using assms
proof (induction "is" arbitrary: acc)
  case Nil
  then show ?case by simp
next
  case (Cons i "is")
  then have "sweep_columns p dl dr nm i cs acc = Inr (acc @ concat (map (diff_at p nm l r i) cs))"
    by (simp add: sweep_columns_eq)
  with Cons show ?case by simp
qed

lemma compare_sheets_eq:
  assumes "distinct (columns l)" "distinct (columns r)"
  shows "compare_sheets p l r nm =
     Inr (sheet_diffs p nm l r,
          Comparison nm (length (rows l)) (length (rows r))
            (length (columns l)) (length (columns r)) (length (sheet_diffs p nm l r)))"
proof -
  let ?m = "max (length (rows l)) (length (rows r))"
  let ?ac = "all_columns_of l r"
  let ?dl = "reindex_rows \<lparr>columns = ?ac,
                       rows = map (\<lambda>row. map (row_cell (columns l) row) ?ac) (rows l)\<rparr> ?m"
  let ?dr = "reindex_rows \<lparr>columns = ?ac,
                       rows = map (\<lambda>row. map (row_cell (columns r) row) ?ac) (rows r)\<rparr> ?m"
  have al: "align l r = Inr (?dl, ?dr)"
    using assms by (rule align_distinct)
  have "\<forall>i \<in> set [0..<?m]. \<forall>c \<in> set ?ac. fetch ?dl i c = Inr (original_cell l i c)
                        \<and> fetch ?dr i c = Inr (original_cell r i c)"
    by (simp add: fetch_reindexed)
  from sweep_rows_eq [OF this, of p nm "[]"]
  have sw: "sweep_rows p ?dl ?dr nm ?ac [0..<?m] [] = Inr (sheet_diffs p nm l r)"
    by (simp add: sheet_diffs_def)
  show ?thesis
    unfolding compare_sheets_def normalize_dataframe_def Let_def al
    by (simp add: sw)
qed



lemma compare_values_refl:
  assumes "fle (Fin 0) t" and "a \<noteq> PyFloat PInf" and "a \<noteq> PyFloat NInf"
  shows "compare_values a a t ic = Inr True"
proof (cases a)
  case PyNone
  then show ?thesis by (simp add: compare_values_def)
next
  case (PyBool b)
  with assms(1) show ?thesis
    by (simp add: compare_values_def numeric_body_def round_double_0)
next
  case (PyInt n)
  with assms(1) show ?thesis
    by (cases "round_double (of_int n)")
       (simp_all add: compare_values_def numeric_body_def float_of_int_def round_double_0
          text_step_eq)
next
  case (PyFloat x)
  with assms show ?thesis
    by (cases x) (simp_all add: compare_values_def numeric_body_def round_double_0)
next
  case (PyStr s)
  then show ?thesis by (simp add: compare_values_def text_step_eq)
next
  case (NpBool b)
  then show ?thesis by (simp add: compare_values_def text_step_eq)
next
  case (NpInt w)
  with assms(1) show ?thesis
    by (cases "round_double (of_int (sint w))")
       (simp_all add: compare_values_def numeric_body_def float_of_int_def round_double_0
          text_step_eq)
next
  case (NpFloat x)
  with assms(1) show ?thesis
    by (cases x) (simp_all add: compare_values_def numeric_body_def round_double_0
        text_step_eq isfinite_def)
qed

lemma row_cell_cases: "row_cell cols row c = np_nan \<or> row_cell cols row c \<in> set row"
proof (cases "map_of (zip cols row) c")
  case None
  then show ?thesis by (simp add: row_cell_def)
next
  case (Some v)
  then have "(c, v) \<in> set (zip cols row)" by (rule map_of_SomeD)
  then have "v \<in> set row" by (rule set_zip_rightD)
  with Some show ?thesis by (simp add: row_cell_def)
qed

lemma original_cell_cases:
  "original_cell df i c = np_nan \<or> (\<exists>row \<in> set (rows df). original_cell df i c \<in> set row)"
  using row_cell_cases [of "columns df" "rows df ! i" c]
  by (auto simp: original_cell_def)

lemma self_comparison_clean:
  assumes t: "fle (Fin 0) (tol p)"
    and cells: "\<forall>row \<in> set (rows T). PyFloat PInf \<notin> set row \<and> PyFloat NInf \<notin> set row"
  shows "sheet_diffs p nm T T = []"
proof -
  have "diff_at p nm T T i c = []" for i c
  proof -
    from original_cell_cases [of T i c] cells
    have "original_cell T i c \<noteq> PyFloat PInf" "original_cell T i c \<noteq> PyFloat NInf"
      by (auto simp: np_nan_def)
    with t have "compare_values (original_cell T i c) (original_cell T i c) (tol p) (ignore_case p)
                 = Inr True"
      by (rule compare_values_refl)
    then show ?thesis by (simp add: diff_at_def)
  qed
  then show ?thesis by (simp add: sheet_diffs_def)
qed

lemma all_columns_x:
  "all_columns_of \<lparr>columns = [''x''], rows = rs\<rparr> \<lparr>columns = [''x''], rows = rs'\<rparr> = [''x'']"
  by (simp add: all_columns_of_def)

lemma compare_sheets_name:
  assumes "compare_sheets p l r nm = Inr (ds, s)"
  shows "\<exists>a b c d n. s = Comparison nm a b c d n"
  using assms
  by (auto simp: compare_sheets_def Let_def split: sum.splits prod.splits)

lemma compare_all_summaries:
  assumes "compare_all p lb rb sheets ds0 ss0 = Inr (ds, ss)"
  shows "\<exists>ss'. ss = ss0 @ ss'
     \<and> list_all2 (\<lambda>sh s. summary_name s = sh
           \<and> (sh \<in> set (map fst lb) \<and> sh \<notin> set (map fst rb) \<longrightarrow> s = Presence sh ''only_in_left'')
           \<and> (sh \<notin> set (map fst lb) \<longrightarrow> s = Presence sh ''only_in_right'')
           \<and> (sh \<in> set (map fst lb) \<and> sh \<in> set (map fst rb)
                \<longrightarrow> (\<exists>a b c d n. s = Comparison sh a b c d n))) sheets ss'"
  using assms
proof (induction sheets arbitrary: ds0 ss0)
  case Nil
  then show ?case by simp
next
  case (Cons sh rest)
  show ?case
  proof (cases "sh \<notin> set (map fst lb)")
    case True
    with Cons.prems have "compare_all p lb rb rest ds0 (ss0 @ [Presence sh ''only_in_right'']) = Inr (ds, ss)"
      by simp
    from Cons.IH [OF this] True show ?thesis by auto
  next
    case inl: False
    show ?thesis
    proof (cases "sh \<notin> set (map fst rb)")
      case True
      with inl Cons.prems have "compare_all p lb rb rest ds0 (ss0 @ [Presence sh ''only_in_left'']) = Inr (ds, ss)"
        by simp
      from Cons.IH [OF this] True inl show ?thesis by auto
    next
      case inr: False
      with inl Cons.prems obtain dfl dfr ds1 summ where
        cs: "compare_sheets p dfl dfr sh = Inr (ds1, summ)"
        and rec: "compare_all p lb rb rest (ds0 @ ds1) (ss0 @ [summ]) = Inr (ds, ss)"
        by (auto split: option.splits sum.splits prod.splits)
      from compare_sheets_name [OF cs] obtain a b c d n where "summ = Comparison sh a b c d n"
        by blast
      with Cons.IH [OF rec] inl inr show ?thesis by auto
    qed
  qed
qed

lemma sorted_strings_AB: "sorted_list_of_set {''A'', ''B''} = [''A'', ''B'']"
proof -
  have "sorted_list_of_set (set [''A'', ''B'']) = [''A'', ''B'']"
    by (rule sorted_list_of_set.idem_if_sorted_distinct)
       (simp_all add: list_le_def list_less_def less_char_def)
  then show ?thesis by simp
qed

lemma self_comparison_report:
  assumes "fle (Fin 0) (tol p)" and "distinct (columns T)"
    and "\<forall>row \<in> set (rows T). PyFloat PInf \<notin> set row \<and> PyFloat NInf \<notin> set row"
  shows "compare_sheets p T T nm =
     Inr ([], Comparison nm (length (rows T)) (length (rows T))
                (length (columns T)) (length (columns T)) 0)"
  using compare_sheets_eq [OF assms(2) assms(2), of p nm]
    self_comparison_clean [OF assms(1) assms(3), of nm]
  by simp

lemma both_sides_run:
  "upload_and_compare \<lparr>tol = Fin 0, ignore_case = False\<rparr> None
     [(''A'', \<lparr>columns = [], rows = []\<rparr>)] [(''B'', \<lparr>columns = [], rows = []\<rparr>)]
   = Inr (Report [] [Presence ''A'' ''only_in_left'', Presence ''B'' ''only_in_right''])"
proof -
  have "set (map fst [(''A'', \<lparr>columns = [], rows = []\<rparr>)])
        \<union> set (map fst [(''B'', \<lparr>columns = [], rows = []\<rparr>)]) = {''A'', ''B''}"
    by auto
  then have "sheets_to_compare [] [(''A'', \<lparr>columns = [], rows = []\<rparr>)]
                 [(''B'', \<lparr>columns = [], rows = []\<rparr>)] = [''A'', ''B'']"
    unfolding sheets_to_compare_def by (simp only: sorted_strings_AB if_False simp_thms)
  then show ?thesis
    by (simp add: upload_and_compare_def py_strip_def Let_def)
qed

lemma requested_example: "requested_of ''A, Z'' = [''A'', ''Z'']"
  by (simp add: requested_of_def str_eval)

lemma strip_example: "py_strip '' A, Z '' = ''A, Z''"
  by (simp add: str_eval)

section \<open>When the numeric coercion raises\<close>






































section \<open>Numeric-looking text\<close>

text \<open>
  C1. Numeric-looking text is meant to be compared as a number, so that the text
  \<open>"5.0"\<close> and the integer \<open>5\<close> are equal at tolerance 0. In the code the text
  \<open>"5.0"\<close> fails \<open>is_number\<close>, the pair goes to the text comparison of \<open>"5.0"\<close> with
  \<open>"5"\<close>, and the two are judged different.
\<close>

theorem text_five_vs_int_five:
  "\<not> is_number (PyStr ''5.0'')
   \<and> compare_values (PyStr ''5.0'') (PyInt 5) (Fin 0) ic = Inr False"
  by (cases ic) (simp_all add: compare_values_def text_step_eq str_eval)

section \<open>Text comparison\<close>



section \<open>Totality of the equality predicate\<close>



section \<open>Booleans against numbers\<close>

text \<open>
  C10. For every tolerance \<open>t \<ge> 0\<close> a Python \<open>bool\<close> passes the numeric test and is
  compared as \<open>1.0\<close> or \<open>0.0\<close>: \<open>True\<close> equals the integer 1 and the float 1.0,
  \<open>False\<close> equals 0. A numpy \<open>bool_\<close>, which is what a boolean column yields, does not
  pass the numeric test and is compared as the text \<open>True\<close> or \<open>False\<close>, so it differs
  from 1 and 0.
\<close>

theorem bool_against_number:
  "(fle (Fin 0) t \<longrightarrow>
      compare_values (PyBool True) (PyInt 1) t ic = Inr True
    \<and> compare_values (PyBool True) (PyFloat (Fin 1)) t ic = Inr True
    \<and> compare_values (PyBool True) (NpInt 1) t ic = Inr True
    \<and> compare_values (PyBool False) (PyInt 0) t ic = Inr True
    \<and> compare_values (PyBool False) (PyFloat (Fin 0)) t ic = Inr True)
   \<and> compare_values (NpBool True) (PyInt 1) t ic = Inr False
   \<and> compare_values (NpBool True) (NpInt 1) t ic = Inr False
   \<and> compare_values (NpBool False) (PyInt 0) t ic = Inr False"
proof (intro conjI impI)
  assume t: "fle (Fin 0) t"
  then show "compare_values (PyBool True) (PyInt 1) t ic = Inr True"
    by (simp add: compare_values_def numeric_body_def float_of_int_1 round_double_0)
  from t show "compare_values (PyBool True) (PyFloat (Fin 1)) t ic = Inr True"
    by (simp add: compare_values_def numeric_body_def round_double_0)
  from t show "compare_values (PyBool True) (NpInt 1) t ic = Inr True"
    by (simp add: compare_values_def numeric_body_def float_of_int_1 round_double_0)
  from t show "compare_values (PyBool False) (PyInt 0) t ic = Inr True"
    by (simp add: compare_values_def numeric_body_def float_of_int_0 round_double_0)
  from t show "compare_values (PyBool False) (PyFloat (Fin 0)) t ic = Inr True"
    by (simp add: compare_values_def numeric_body_def round_double_0)
next
  show "compare_values (NpBool True) (PyInt 1) t ic = Inr False"
    by (cases ic) (simp_all add: compare_values_def text_step_eq str_eval)
next
  show "compare_values (NpBool True) (NpInt 1) t ic = Inr False"
    by (cases ic) (simp_all add: compare_values_def text_step_eq str_eval)
next
  show "compare_values (NpBool False) (PyInt 0) t ic = Inr False"
    by (cases ic) (simp_all add: compare_values_def text_step_eq str_eval)
qed

theorem bool_against_number_witness:
  "fle (Fin 0) (Fin (1 / 2))
   \<and> compare_values (PyBool True) (PyInt 1) (Fin (1 / 2)) False = Inr True
   \<and> compare_values (PyBool False) (PyFloat (Fin 0)) (Fin (1 / 2)) False = Inr True"
  using bool_against_number [of "Fin (1 / 2)" False] by simp

theorem np_bool_differs_from_one:
  "compare_values (NpBool True) (NpInt 1) (Fin 0) False = Inr False"
  by (simp add: compare_values_def text_step_eq str_eval)

section \<open>Alignment\<close>



section \<open>The summary of a compared sheet\<close>



section \<open>A table against itself\<close>

text \<open>
  C5. A table compared with itself should give no difference record and a difference
  count of 0, at every tolerance \<open>t \<ge> 0\<close> and either setting of \<open>ignore_case\<close>. A
  Python float infinity breaks this: it passes \<open>is_number\<close>, \<open>inf - inf\<close> is NaN, and
  \<open>NaN <= tol\<close> is false, so the cell differs from itself. Here the table has one
  column holding the text \<open>a\<close> and \<open>float('inf')\<close>, and the comparison with itself
  reports one difference. (For every table without such a cell the result is empty:
  lemma \<open>self_comparison_clean\<close>.)
\<close>

theorem infinite_float_self_comparison:
  "compare_sheets \<lparr>tol = Fin 0, ignore_case = False\<rparr>
     \<lparr>columns = [''x''], rows = [[PyStr ''a''], [PyFloat PInf]]\<rparr>
     \<lparr>columns = [''x''], rows = [[PyStr ''a''], [PyFloat PInf]]\<rparr> ''S''
   = Inr ([\<lparr>sheet = ''S'', row_index = 1, excel_row = 2, column = ''x'',
            left_value = PyFloat PInf, right_value = PyFloat PInf\<rparr>],
          Comparison ''S'' 2 2 1 1 1)"
proof -
  let ?T = "\<lparr>columns = [''x''], rows = [[PyStr ''a''], [PyFloat PInf]]\<rparr>"
  let ?p = "\<lparr>tol = Fin 0, ignore_case = False\<rparr>"
  have c0: "original_cell ?T 0 ''x'' = PyStr ''a''"
    by (simp add: original_cell_def row_cell_def)
  have c1: "original_cell ?T (Suc 0) ''x'' = PyFloat PInf"
    by (simp add: original_cell_def row_cell_def)
  have e0: "compare_values (PyStr ''a'') (PyStr ''a'') (Fin 0) False = Inr True"
    by (simp add: compare_values_def text_step_eq)
  have e1: "compare_values (PyFloat PInf) (PyFloat PInf) (Fin 0) False = Inr False"
    by (simp add: compare_values_def numeric_body_def)
  have upt: "[0..<2] = [0, Suc 0]" by (simp add: upt_rec)
  have sd: "sheet_diffs ?p ''S'' ?T ?T =
        [\<lparr>sheet = ''S'', row_index = 1, excel_row = 2, column = ''x'',
            left_value = PyFloat PInf, right_value = PyFloat PInf\<rparr>]"
    by (simp add: sheet_diffs_def all_columns_x upt diff_at_def c0 c1 e0 e1)
  have "compare_sheets ?p ?T ?T ''S'' =
     Inr (sheet_diffs ?p ''S'' ?T ?T,
          Comparison ''S'' (length (rows ?T)) (length (rows ?T))
            (length (columns ?T)) (length (columns ?T)) (length (sheet_diffs ?p ''S'' ?T ?T)))"
    by (rule compare_sheets_eq) simp_all
  then show ?thesis by (simp add: sd)
qed

section \<open>The tolerance bound\<close>

text \<open>
  C6. Two numbers are equal when the double-precision value of \<open>|a - b|\<close> is at most
  the tolerance, a closed bound: where \<open>a - b\<close> is itself a double, they are equal
  exactly when \<open>|a - b| \<le> t\<close>, so a difference of exactly \<open>t\<close> is equal and a larger
  one is not; at tolerance 0 two doubles are equal exactly when they are the same number.
  The pair \<open>5.0\<close> and \<open>5.0 + t\<close> is a different matter, because the sum is rounded:
  for \<open>t = 0.7\<close> it is the double \<open>5.7\<close>, and \<open>5.7 - 5.0\<close> is
  \<open>0.7000000000000002\<close>, more than \<open>t\<close>.
\<close>

theorem tolerance_closed:
  "(round_double (a - b) = Fin (a - b) \<longrightarrow>
      compare_values (PyFloat (Fin a)) (PyFloat (Fin b)) (Fin t) ic = Inr (\<bar>a - b\<bar> \<le> t))
   \<and> (round_double a = Fin a \<and> round_double b = Fin b \<longrightarrow>
      compare_values (PyFloat (Fin a)) (PyFloat (Fin b)) (Fin 0) ic = Inr (a = b))"
proof (intro conjI impI)
  assume "round_double (a - b) = Fin (a - b)"
  then show "compare_values (PyFloat (Fin a)) (PyFloat (Fin b)) (Fin t) ic = Inr (\<bar>a - b\<bar> \<le> t)"
    by (simp add: compare_values_def numeric_body_def)
next
  assume "round_double a = Fin a \<and> round_double b = Fin b"
  then have "round_double (a - b) = Fin 0 \<longleftrightarrow> a = b"
    by (simp add: fsub_zero_iff)
  then show "compare_values (PyFloat (Fin a)) (PyFloat (Fin b)) (Fin 0) ic = Inr (a = b)"
    by (simp add: compare_values_def numeric_body_def fle_fabs_zero)
qed

theorem tolerance_closed_witness:
  "round_double (5 - 11 / 2) = Fin (5 - 11 / 2)
   \<and> compare_values (PyFloat (Fin 5)) (PyFloat (Fin (11 / 2))) (Fin (1 / 2)) False = Inr True
   \<and> round_double (5 - 6) = Fin (5 - 6)
   \<and> compare_values (PyFloat (Fin 5)) (PyFloat (Fin 6)) (Fin (1 / 2)) False = Inr False
   \<and> round_double 5 = Fin 5 \<and> round_double (11 / 2) = Fin (11 / 2)
   \<and> compare_values (PyFloat (Fin 5)) (PyFloat (Fin (11 / 2))) (Fin 0) False = Inr False"
  using tolerance_closed [of 5 "11 / 2" "1 / 2" False] tolerance_closed [of 5 6 "1 / 2" False]
    round_double_half round_double_m1 round_double_5 round_double_11_2
  by simp

theorem boundary_at_0_7:
  "compare_values (PyFloat (Fin 5))
     (PyFloat (fadd (Fin 5) (Fin (3152519739159347 / 4503599627370496))))
     (Fin (3152519739159347 / 4503599627370496)) False = Inr False"
  unfolding fadd_5_07
  by (simp add: compare_values_def numeric_body_def diff_5_57)

section \<open>Sheets present in one workbook only\<close>

text \<open>
  C2. In the report, the summary of a selected sheet that only the left workbook has is the
  presence-only record with note \<open>only_in_left\<close>, and that of a sheet that only the
  right workbook has is the one with note \<open>only_in_right\<close>: the note names the side
  the sheet is present in. There is one summary per selected sheet, in selection order.
\<close>

theorem presence_notes:
  assumes "upload_and_compare p form_sheets left_book right_book = Inr (Report ds ss)"
    and "sheets = sheets_to_compare (py_strip (case form_sheets of None \<Rightarrow> [] | Some s \<Rightarrow> s))
                    left_book right_book"
  shows "length ss = length sheets
     \<and> (\<forall>i < length sheets.
           (sheets ! i \<in> set (map fst left_book) \<and> sheets ! i \<notin> set (map fst right_book)
              \<longrightarrow> ss ! i = Presence (sheets ! i) ''only_in_left'')
         \<and> (sheets ! i \<in> set (map fst right_book) \<and> sheets ! i \<notin> set (map fst left_book)
              \<longrightarrow> ss ! i = Presence (sheets ! i) ''only_in_right''))"
proof -
  from assms have "compare_all p left_book right_book sheets [] [] = Inr (ds, ss)"
    by (auto simp: upload_and_compare_def Let_def split: if_splits sum.splits prod.splits)
  from compare_all_summaries [OF this]
  have la: "list_all2 (\<lambda>sh s. summary_name s = sh
           \<and> (sh \<in> set (map fst left_book) \<and> sh \<notin> set (map fst right_book)
                 \<longrightarrow> s = Presence sh ''only_in_left'')
           \<and> (sh \<notin> set (map fst left_book) \<longrightarrow> s = Presence sh ''only_in_right'')
           \<and> (sh \<in> set (map fst left_book) \<and> sh \<in> set (map fst right_book)
                \<longrightarrow> (\<exists>a b c d n. s = Comparison sh a b c d n))) sheets ss"
    by simp
  then have len: "length ss = length sheets" by (simp add: list_all2_lengthD)
  show ?thesis
  proof (intro conjI allI impI)
    show "length ss = length sheets" by (rule len)
  next
    fix i assume "i < length sheets"
      and "sheets ! i \<in> set (map fst left_book) \<and> sheets ! i \<notin> set (map fst right_book)"
    with list_all2_nthD2 [OF la, of i] len
    show "ss ! i = Presence (sheets ! i) ''only_in_left''" by simp
  next
    fix i assume "i < length sheets"
      and "sheets ! i \<in> set (map fst right_book) \<and> sheets ! i \<notin> set (map fst left_book)"
    with list_all2_nthD2 [OF la, of i] len
    show "ss ! i = Presence (sheets ! i) ''only_in_right''" by simp
  qed
qed

theorem presence_notes_witness:
  "upload_and_compare \<lparr>tol = Fin 0, ignore_case = False\<rparr> None
     [(''A'', \<lparr>columns = [], rows = []\<rparr>)] [(''B'', \<lparr>columns = [], rows = []\<rparr>)]
   = Inr (Report [] [Presence ''A'' ''only_in_left'', Presence ''B'' ''only_in_right''])
   \<and> sheets_to_compare (py_strip (case None of None \<Rightarrow> [] | Some s \<Rightarrow> s))
        [(''A'', \<lparr>columns = [], rows = []\<rparr>)] [(''B'', \<lparr>columns = [], rows = []\<rparr>)]
      = sheets_to_compare [] [(''A'', \<lparr>columns = [], rows = []\<rparr>)]
          [(''B'', \<lparr>columns = [], rows = []\<rparr>)]
   \<and> length [Presence ''A'' ''only_in_left'', Presence ''B'' ''only_in_right'']
      = length (sheets_to_compare [] [(''A'', \<lparr>columns = [], rows = []\<rparr>)]
                  [(''B'', \<lparr>columns = [], rows = []\<rparr>)])"
  using presence_notes [OF both_sides_run refl]
  by (simp add: both_sides_run py_strip_def)

theorem left_only_sheet_note:
  "upload_and_compare \<lparr>tol = Fin 0, ignore_case = False\<rparr> None
     [(''A'', \<lparr>columns = [], rows = []\<rparr>)] []
   = Inr (Report [] [Presence ''A'' ''only_in_left''])
   \<and> Presence ''A'' ''only_in_left'' \<noteq> Presence ''A'' ''only_in_right''"
  by (simp add: upload_and_compare_def sheets_to_compare_def py_strip_def Let_def)

section \<open>Sheet selection\<close>

text \<open>
  C9. With a sheet list in the request (its stripped text is not empty), the sheets
  compared are the requested names, each stripped and the empty ones dropped, that exist
  in at least one workbook, in the order requested; if none exists the answer is the form
  with the message that no requested sheet was found, and no report. Without a list, the
  sheets compared are the union of both workbooks' sheet names in sorted order. A report
  has one summary per selected sheet, in that order.
\<close>

theorem sheet_selection:
  assumes "inp = py_strip (case form_sheets of None \<Rightarrow> [] | Some s \<Rightarrow> s)"
    and "sel = filter (\<lambda>s. s \<in> set (map fst left_book) \<or> s \<in> set (map fst right_book))
                 (requested_of inp)"
  shows "(inp \<noteq> [] \<and> sel = [] \<longrightarrow>
            upload_and_compare p form_sheets left_book right_book
            = Inr (Form ''No requested sheets found in either file.''))
     \<and> (inp \<noteq> [] \<and> sel \<noteq> [] \<longrightarrow>
            upload_and_compare p form_sheets left_book right_book
            = (case compare_all p left_book right_book sel [] [] of
                 Inl e \<Rightarrow> Inl e
               | Inr (all_diffs, summaries) \<Rightarrow> Inr (Report all_diffs summaries)))
     \<and> (inp = [] \<longrightarrow>
            upload_and_compare p form_sheets left_book right_book
            = (case compare_all p left_book right_book
                      (sorted_list_of_set (set (map fst left_book) \<union> set (map fst right_book)))
                      [] [] of
                 Inl e \<Rightarrow> Inl e
               | Inr (all_diffs, summaries) \<Rightarrow> Inr (Report all_diffs summaries)))
     \<and> (\<forall>ds ss. upload_and_compare p form_sheets left_book right_book = Inr (Report ds ss)
            \<longrightarrow> map summary_name ss
                = (if inp \<noteq> [] then sel
                   else sorted_list_of_set (set (map fst left_book) \<union> set (map fst right_book))))"
proof (intro conjI allI impI)
  assume "inp \<noteq> [] \<and> sel = []"
  with assms show "upload_and_compare p form_sheets left_book right_book
            = Inr (Form ''No requested sheets found in either file.'')"
    by (simp add: upload_and_compare_def sheets_to_compare_def Let_def)
next
  assume "inp \<noteq> [] \<and> sel \<noteq> []"
  with assms show "upload_and_compare p form_sheets left_book right_book
            = (case compare_all p left_book right_book sel [] [] of
                 Inl e \<Rightarrow> Inl e
               | Inr (all_diffs, summaries) \<Rightarrow> Inr (Report all_diffs summaries))"
    by (simp add: upload_and_compare_def sheets_to_compare_def Let_def)
next
  assume "inp = []"
  with assms show "upload_and_compare p form_sheets left_book right_book
            = (case compare_all p left_book right_book
                      (sorted_list_of_set (set (map fst left_book) \<union> set (map fst right_book)))
                      [] [] of
                 Inl e \<Rightarrow> Inl e
               | Inr (all_diffs, summaries) \<Rightarrow> Inr (Report all_diffs summaries))"
    by (simp add: upload_and_compare_def sheets_to_compare_def Let_def)
next
  fix ds ss
  assume r: "upload_and_compare p form_sheets left_book right_book = Inr (Report ds ss)"
  let ?sheets = "sheets_to_compare inp left_book right_book"
  from r assms(1) have "compare_all p left_book right_book ?sheets [] [] = Inr (ds, ss)"
    by (auto simp: upload_and_compare_def Let_def split: if_splits sum.splits prod.splits)
  from compare_all_summaries [OF this]
  have "list_all2 (\<lambda>sh s. summary_name s = sh) ?sheets ss"
    by (auto elim: list_all2_mono)
  then have "map summary_name ss = ?sheets"
    by (induction rule: list_all2_induct) simp_all
  with assms(2) show "map summary_name ss
                = (if inp \<noteq> [] then sel
                   else sorted_list_of_set (set (map fst left_book) \<union> set (map fst right_book)))"
    by (simp add: sheets_to_compare_def)
qed

theorem sheet_selection_witness:
  "upload_and_compare \<lparr>tol = Fin 0, ignore_case = False\<rparr> (Some ''Z'')
     [(''A'', \<lparr>columns = [], rows = []\<rparr>)] [(''B'', \<lparr>columns = [], rows = []\<rparr>)]
   = Inr (Form ''No requested sheets found in either file.'')
   \<and> upload_and_compare \<lparr>tol = Fin 0, ignore_case = False\<rparr> (Some '' A, Z '')
     [(''A'', \<lparr>columns = [], rows = []\<rparr>)] [(''B'', \<lparr>columns = [], rows = []\<rparr>)]
   = Inr (Report [] [Presence ''A'' ''only_in_left''])
   \<and> upload_and_compare \<lparr>tol = Fin 0, ignore_case = False\<rparr> None
     [(''A'', \<lparr>columns = [], rows = []\<rparr>)] [(''B'', \<lparr>columns = [], rows = []\<rparr>)]
   = Inr (Report [] [Presence ''A'' ''only_in_left'', Presence ''B'' ''only_in_right''])"
proof -
  let ?p = "\<lparr>tol = Fin 0, ignore_case = False\<rparr>"
  let ?l = "[(''A'', \<lparr>columns = [], rows = []\<rparr>)]"
  let ?r = "[(''B'', \<lparr>columns = [], rows = []\<rparr>)]"
  have u: "set (map fst ?l) \<union> set (map fst ?r) = {''A'', ''B''}" by auto
  have z: "py_strip ''Z'' = ''Z''" "requested_of ''Z'' = [''Z'']"
    by (simp_all add: requested_of_def str_eval)
  from sheet_selection [where p = ?p and form_sheets = "Some ''Z''" and left_book = ?l
      and right_book = ?r, OF refl refl]
  have a: "upload_and_compare ?p (Some ''Z'') ?l ?r
           = Inr (Form ''No requested sheets found in either file.'')"
    by (simp add: z)
  from sheet_selection [where p = ?p and form_sheets = "Some '' A, Z ''" and left_book = ?l
      and right_book = ?r, OF refl refl]
  have b: "upload_and_compare ?p (Some '' A, Z '') ?l ?r
           = Inr (Report [] [Presence ''A'' ''only_in_left''])"
    by (simp add: strip_example requested_example)
  from sheet_selection [where p = ?p and form_sheets = None and left_book = ?l
      and right_book = ?r, OF refl refl]
  have c: "upload_and_compare ?p None ?l ?r
           = Inr (Report [] [Presence ''A'' ''only_in_left'', Presence ''B'' ''only_in_right''])"
    unfolding u sorted_strings_AB by (simp add: py_strip_def)
  from a b c show ?thesis by simp
qed

end
